theory Spec2Isabelle
  imports
    Main
    "HOL-Library.Product_Lexorder"
    "HOL-Library.Sublist"
    "HOL-Library.Monad_Syntax"
begin

section \<open>Exceptions\<close>

text \<open>
  The exceptions that can leave the functions of \<^verbatim>\<open>upkeep.py\<close>: the value error of
  \<^verbatim>\<open>datetime.date(y, m, d)\<close> on fields that are no calendar date, and the overflow
  error of \<^verbatim>\<open>datetime.timedelta(days=n)\<close> and of \<^verbatim>\<open>date + timedelta\<close> when the result
  leaves the supported range. A function that can raise returns \<open>error + 'a\<close>.
  Failures of the issue tracker are caught where they happen and only logged, so they
  are no exception of the model (see \<open>tracker\<close> below). The holiday file and the
  holiday calendar are taken as present and readable.
\<close>

datatype error = ValueError | OverflowError

section \<open>The datetime library: dates\<close>

text \<open>
  A \<^verbatim>\<open>datetime.date\<close> holds a year, a month and a day and compares as this triple,
  which is the lexicographic order of the product type. Every date object of Python
  satisfies \<open>valid_date\<close>: the constructor \<open>date_new\<close> checks it.
\<close>

type_synonym date = "int \<times> int \<times> int"

definition year :: "date \<Rightarrow> int" where
  "year d = fst d"

definition month :: "date \<Rightarrow> int" where
  "month d = fst (snd d)"

definition day :: "date \<Rightarrow> int" where
  "day d = snd (snd d)"

definition MINYEAR :: int where
  "MINYEAR = 1"

definition MAXYEAR :: int where
  "MAXYEAR = 9999"

definition is_leap :: "int \<Rightarrow> bool" where
  "is_leap y = (y mod 4 = 0 \<and> (y mod 100 \<noteq> 0 \<or> y mod 400 = 0))"

definition DAYS_IN_MONTH :: "int list" where
  "DAYS_IN_MONTH = [-1, 31, 28, 31, 30, 31, 30, 31, 31, 30, 31, 30, 31]"

definition DAYS_BEFORE_MONTH :: "int list" where
  "DAYS_BEFORE_MONTH = [-1, 0, 31, 59, 90, 120, 151, 181, 212, 243, 273, 304, 334]"

text \<open>The library asserts \<open>1 \<le> m \<le> 12\<close>; outside it the model answers 0.\<close>

definition days_in_month :: "int \<Rightarrow> int \<Rightarrow> int" where
  "days_in_month y m =
     (if 1 \<le> m \<and> m \<le> 12
      then (if m = 2 \<and> is_leap y then 29 else DAYS_IN_MONTH ! nat m)
      else 0)"

definition days_before_year :: "int \<Rightarrow> int" where
  "days_before_year y = (let y' = y - 1 in y' * 365 + y' div 4 - y' div 100 + y' div 400)"

definition days_before_month :: "int \<Rightarrow> int \<Rightarrow> int" where
  "days_before_month y m =
     (if 1 \<le> m \<and> m \<le> 12
      then DAYS_BEFORE_MONTH ! nat m + (if m > 2 \<and> is_leap y then 1 else 0)
      else 0)"

definition valid_date :: "date \<Rightarrow> bool" where
  "valid_date d =
     (MINYEAR \<le> year d \<and> year d \<le> MAXYEAR \<and> 1 \<le> month d \<and> month d \<le> 12 \<and>
      1 \<le> day d \<and> day d \<le> days_in_month (year d) (month d))"

text \<open>\<^verbatim>\<open>datetime.date(y, m, d)\<close>: a value error unless the fields are a calendar date.\<close>

definition date_new :: "int \<Rightarrow> int \<Rightarrow> int \<Rightarrow> error + date" where
  "date_new y m d = (if valid_date (y, m, d) then Inr (y, m, d) else Inl ValueError)"

text \<open>\<^verbatim>\<open>date.toordinal()\<close>: the day number, 1 for 0001-01-01.\<close>

definition toordinal :: "date \<Rightarrow> int" where
  "toordinal d = days_before_year (year d) + days_before_month (year d) (month d) + day d"

text \<open>\<^verbatim>\<open>date.weekday()\<close>: 0 for Monday to 6 for Sunday.\<close>

definition weekday :: "date \<Rightarrow> int" where
  "weekday d = (toordinal d + 6) mod 7"

text \<open>
  \<^verbatim>\<open>date + datetime.timedelta(days=1)\<close>: the day is incremented and the date
  normalised, moving to the first of the next month, or of the next year, when the
  day has left the month; a year beyond \<open>MAXYEAR\<close> is an overflow error.
\<close>

definition date_add_one_day :: "date \<Rightarrow> error + date" where
  "date_add_one_day dt =
     (let y = year dt; m = month dt; d = day dt + 1;
          r = (if d \<le> days_in_month y m then (y, m, d)
               else if m + 1 \<le> 12 then (y, m + 1, 1)
               else (y + 1, 1, 1))
      in if MINYEAR \<le> year r \<and> year r \<le> MAXYEAR then Inr r else Inl OverflowError)"

text \<open>
  \<^verbatim>\<open>datetime.timedelta(days=n)\<close>: a number of days (the seconds and microseconds
  are 0 everywhere in this program), of magnitude at most 999999999.
\<close>

definition timedelta :: "int \<Rightarrow> error + int" where
  "timedelta n = (if \<bar>n\<bar> \<le> 999999999 then Inr n else Inl OverflowError)"

text \<open>\<^verbatim>\<open>a - b\<close> on two dates: the timedelta of the difference of the ordinals.\<close>

definition date_sub :: "date \<Rightarrow> date \<Rightarrow> int" where
  "date_sub a b = toordinal a - toordinal b"

section \<open>Strings\<close>

text \<open>
  Titles, holiday names and the lines of the holiday file are strings of ASCII
  characters.
\<close>

definition is_digit :: "char \<Rightarrow> bool" where
  "is_digit c = (48 \<le> (of_char c :: nat) \<and> (of_char c :: nat) \<le> 57)"

definition digit_char :: "nat \<Rightarrow> char" where
  "digit_char n = char_of (48 + n mod 10)"

text \<open>\<^verbatim>\<open>str(n)\<close> of a natural number: its decimal digits.\<close>

fun str_nat :: "nat \<Rightarrow> string" where
  "str_nat n = (if n < 10 then [digit_char n] else str_nat (n div 10) @ [digit_char n])"

declare str_nat.simps [simp del]

text \<open>\<^verbatim>\<open>"%0wd" % n\<close> for \<open>n \<ge> 0\<close>: the decimal digits, zero-padded on the left to width \<open>w\<close>.\<close>

definition zero_pad :: "nat \<Rightarrow> int \<Rightarrow> string" where
  "zero_pad w n = (let s = str_nat (nat n) in replicate (w - length s) (CHR ''0'') @ s)"

text \<open>\<^verbatim>\<open>int(s)\<close> on a string of decimal digits.\<close>

definition int_of_str :: "string \<Rightarrow> int" where
  "int_of_str s = foldl (\<lambda>a c. 10 * a + (int (of_char c) - 48)) 0 s"

text \<open>\<^verbatim>\<open>s.startswith(p)\<close> is \<open>prefix p s\<close>.\<close>

text \<open>
  \<^verbatim>\<open>s.replace(old, new)\<close>: every occurrence of \<open>old\<close>, found from the left and not
  overlapping, is replaced; an empty \<open>old\<close> matches before every character and at the
  end.
\<close>

fun replace_from :: "string \<Rightarrow> string \<Rightarrow> nat \<Rightarrow> string \<Rightarrow> string" where
  "replace_from old new skip [] = []"
| "replace_from old new (Suc k) (c # s) = replace_from old new k s"
| "replace_from old new 0 (c # s) =
     (if prefix old (c # s) then new @ replace_from old new (length old - 1) s
      else c # replace_from old new 0 s)"

definition replace :: "string \<Rightarrow> string \<Rightarrow> string \<Rightarrow> string" where
  "replace old new s =
     (if old = [] then new @ concat (map (\<lambda>c. c # new) s) else replace_from old new 0 s)"

text \<open>\<^verbatim>\<open>s.strip()\<close>: leading and trailing whitespace removed.\<close>

definition is_space :: "char \<Rightarrow> bool" where
  "is_space c = ((of_char c :: nat) \<in> {9, 10, 11, 12, 13, 28, 29, 30, 31, 32})"

definition strip :: "string \<Rightarrow> string" where
  "strip s = rev (dropWhile is_space (rev (dropWhile is_space s)))"

section \<open>Title codec\<close>

text \<open>
  The pattern \<^verbatim>\<open>([0-9]{4})-([0-9]{2})-([0-9]{2}):\<close>, matched at the start of the
  title. \<open>match_digits k\<close> is the group \<^verbatim>\<open>([0-9]{k})\<close>: it consumes exactly \<open>k\<close>
  digits and returns them with the rest; \<open>match_char\<close> is a literal character.
\<close>

fun match_digits :: "nat \<Rightarrow> string \<Rightarrow> (string \<times> string) option" where
  "match_digits 0 s = Some ([], s)"
| "match_digits (Suc k) [] = None"
| "match_digits (Suc k) (c # s) =
     (if is_digit c
      then (case match_digits k s of None \<Rightarrow> None | Some (g, r) \<Rightarrow> Some (c # g, r))
      else None)"

fun match_char :: "char \<Rightarrow> string \<Rightarrow> string option" where
  "match_char c [] = None"
| "match_char c (x # s) = (if x = c then Some s else None)"

definition pattern_match :: "string \<Rightarrow> (string \<times> string \<times> string) option" where
  "pattern_match title =
     do {
       (g1, r1) \<leftarrow> match_digits 4 title;
       r2 \<leftarrow> match_char (CHR ''-'') r1;
       (g2, r3) \<leftarrow> match_digits 2 r2;
       r4 \<leftarrow> match_char (CHR ''-'') r3;
       (g3, r5) \<leftarrow> match_digits 2 r4;
       r6 \<leftarrow> match_char (CHR '':'') r5;
       Some (g1, g2, g3)
     }"

text \<open>
  \<open>issue_title_to_date\<close>: \<open>Inr None\<close> is Python's \<^verbatim>\<open>None\<close> (the function falls off
  its end when there is no match), \<open>Inl\<close> the exception of the date constructor.
\<close>

definition issue_title_to_date :: "string \<Rightarrow> error + date option" where
  "issue_title_to_date title =
     (case pattern_match title of
        None \<Rightarrow> Inr None
      | Some (g1, g2, g3) \<Rightarrow>
          (case date_new (int_of_str g1) (int_of_str g2) (int_of_str g3) of
             Inl e \<Rightarrow> Inl e
           | Inr d \<Rightarrow> Inr (Some d)))"

text \<open>\<^verbatim>\<open>str(date)\<close>, which is \<^verbatim>\<open>date.isoformat()\<close>: \<^verbatim>\<open>"%04d-%02d-%02d"\<close>.\<close>

definition isoformat :: "date \<Rightarrow> string" where
  "isoformat d = zero_pad 4 (year d) @ ''-'' @ zero_pad 2 (month d) @ ''-'' @ zero_pad 2 (day d)"

text \<open>The names of \<^verbatim>\<open>%A\<close> and \<^verbatim>\<open>%B\<close> in the C locale.\<close>

definition DAY_NAMES :: "string list" where
  "DAY_NAMES = [''Monday'', ''Tuesday'', ''Wednesday'', ''Thursday'', ''Friday'',
                ''Saturday'', ''Sunday'']"

definition MONTH_NAMES :: "string list" where
  "MONTH_NAMES = [''January'', ''February'', ''March'', ''April'', ''May'', ''June'', ''July'',
                  ''August'', ''September'', ''October'', ''November'', ''December'']"

definition day_name :: "date \<Rightarrow> string" where
  "day_name d = DAY_NAMES ! nat (weekday d)"

definition month_name :: "date \<Rightarrow> string" where
  "month_name d = (if 1 \<le> month d \<and> month d \<le> 12 then MONTH_NAMES ! nat (month d - 1) else [])"

text \<open>\<^verbatim>\<open>f"{date:%A, %B %-d, %Y}"\<close>\<close>

definition strftime_long :: "date \<Rightarrow> string" where
  "strftime_long d =
     day_name d @ '', '' @ month_name d @ '' '' @ str_nat (nat (day d)) @ '', '' @
     str_nat (nat (year d))"

text \<open>The title that \<open>create_scrum_issue\<close> builds.\<close>

definition issue_title :: "date \<Rightarrow> string" where
  "issue_title d = isoformat d @ '': e-scrum for '' @ strftime_long d"

section \<open>The environment of a run\<close>

text \<open>
  What the program reads from outside: the value of \<^verbatim>\<open>get_today()\<close>, the holiday
  calendar \<^verbatim>\<open>PA_HOLIDAYS\<close> (the official name of a date, if it has one), the lines of
  \<^verbatim>\<open>holidays.txt\<close> as \<^verbatim>\<open>readlines()\<close> returns them, and which requests the issue
  tracker answers with an exception.
\<close>

record issue =
  number :: nat
  title :: string

datatype request = EditState nat string | CreateIssue string string

record env =
  today :: date
  pa_holidays :: "date \<Rightarrow> string option"
  holidays_txt :: "string list"
  tracker_fails :: "request \<Rightarrow> bool"

text \<open>
  The state a run changes: the requests sent to the tracker, in order, and the
  messages logged at level error (the logger drops the messages of level info).
\<close>

record tracker =
  requests :: "request list"
  error_log :: "string list"

definition send :: "env \<Rightarrow> request \<Rightarrow> tracker \<Rightarrow> bool \<times> tracker" where
  "send e r tr = (tracker_fails e r, tr\<lparr>requests := requests tr @ [r]\<rparr>)"

definition log_error :: "string \<Rightarrow> tracker \<Rightarrow> tracker" where
  "log_error msg tr = tr\<lparr>error_log := error_log tr @ [msg]\<rparr>"

section \<open>Calendar: holidays and workdays\<close>

definition get_holidays :: "env \<Rightarrow> string set" where
  "get_holidays e =
     (let lines = map strip (holidays_txt e)
      in set (filter (\<lambda>l. l \<noteq> [] \<and> \<not> prefix ''#'' l) lines))"

definition is_holiday :: "env \<Rightarrow> date \<Rightarrow> bool" where
  "is_holiday e d =
     (replace '' (Observed)'' [] (case pa_holidays e d of None \<Rightarrow> [] | Some name \<Rightarrow> name)
        \<in> get_holidays e)"

text \<open>\<^verbatim>\<open>holidays.WEEKEND\<close>: Saturday and Sunday as weekday numbers.\<close>

definition WEEKEND :: "int list" where
  "WEEKEND = [5, 6]"

definition is_workday :: "env \<Rightarrow> date \<Rightarrow> bool" where
  "is_workday e d = (weekday d \<notin> set WEEKEND \<and> \<not> is_holiday e d)"

text \<open>
  The loop of \<open>get_upcoming_workdays\<close>; the list is what the generator yields. The
  loop ends: each step moves the date forward and the date cannot pass \<open>MAXYEAR\<close>.
\<close>

function upcoming_loop :: "env \<Rightarrow> date \<Rightarrow> int \<Rightarrow> int \<Rightarrow> error + date list" where
  "upcoming_loop e dt i workdays_ahead =
     (if i < workdays_ahead
      then (case date_add_one_day dt of
              Inl err \<Rightarrow> Inl err
            | Inr dt' \<Rightarrow>
                (if is_workday e dt'
                 then (case upcoming_loop e dt' (i + 1) workdays_ahead of
                         Inl err \<Rightarrow> Inl err
                       | Inr ys \<Rightarrow> Inr (dt' # ys))
                 else upcoming_loop e dt' i workdays_ahead))
      else Inr [])"
  by pat_completeness auto
termination
proof (relation "measures [\<lambda>(e, dt, i, n). nat (10000 - year dt),
                          \<lambda>(e, dt, i, n). nat (13 - month dt),
                          \<lambda>(e, dt, i, n). nat (32 - day dt)]")
  have dim: "days_in_month y m \<le> 31" for y m
  proof (cases "1 \<le> m \<and> m \<le> 12")
    case True
    then have "m \<in> {1, 2, 3, 4, 5, 6, 7, 8, 9, 10, 11, 12}"
      by simp arith
    then show ?thesis
      by (auto simp: days_in_month_def DAYS_IN_MONTH_def)
  next
    case False
    then show ?thesis
      by (auto simp: days_in_month_def)
  qed
  have step: "date_add_one_day dt = Inr dt' \<Longrightarrow>
      year dt < year dt' \<and> year dt < 10000 \<or>
      year dt = year dt' \<and> (month dt < month dt' \<and> month dt < 13 \<or>
        month dt = month dt' \<and> day dt < day dt' \<and> day dt < 32)" for dt dt'
    using dim [of "year dt" "month dt"]
    by (auto simp: date_add_one_day_def Let_def year_def month_def day_def MINYEAR_def
        MAXYEAR_def split: if_splits)
  show "wf (measures [\<lambda>(e, dt, i, n). nat (10000 - year dt),
                      \<lambda>(e, dt, i, n). nat (13 - month dt),
                      \<lambda>(e, dt, i, n). nat (32 - day dt)])"
    by simp
  show "((e, dt', i + 1, n), (e, dt, i, n)) \<in>
        measures [\<lambda>(e, dt, i, n). nat (10000 - year dt),
                  \<lambda>(e, dt, i, n). nat (13 - month dt),
                  \<lambda>(e, dt, i, n). nat (32 - day dt)]"
    if "date_add_one_day dt = Inr dt'" for e :: env and dt dt' :: date and i n :: int
    using step [OF that] by auto
  show "((e, dt', i, n), (e, dt, i, n)) \<in>
        measures [\<lambda>(e, dt, i, n). nat (10000 - year dt),
                  \<lambda>(e, dt, i, n). nat (13 - month dt),
                  \<lambda>(e, dt, i, n). nat (32 - day dt)]"
    if "date_add_one_day dt = Inr dt'" for e :: env and dt dt' :: date and i n :: int
    using step [OF that] by auto
qed

declare upcoming_loop.simps [simp del]

definition get_upcoming_workdays :: "env \<Rightarrow> int \<Rightarrow> error + date list" where
  "get_upcoming_workdays e workdays_ahead =
     (let dt = today e
      in case upcoming_loop e dt 0 workdays_ahead of
           Inl err \<Rightarrow> Inl err
         | Inr ys \<Rightarrow> Inr (if is_workday e dt then dt # ys else ys))"

section \<open>Reconciler\<close>

text \<open>
  The set comprehension over the issues' titles, evaluated in the order of the
  issues; the first exception ends it.
\<close>

fun titles_to_dates :: "issue list \<Rightarrow> error + date option list" where
  "titles_to_dates [] = Inr []"
| "titles_to_dates (i # rest) =
     (case issue_title_to_date (title i) of
        Inl err \<Rightarrow> Inl err
      | Inr d \<Rightarrow> (case titles_to_dates rest of Inl err \<Rightarrow> Inl err | Inr ds \<Rightarrow> Inr (d # ds)))"

definition get_future_dates_without_issues :: "env \<Rightarrow> issue list \<Rightarrow> int \<Rightarrow> error + date list" where
  "get_future_dates_without_issues e issues workdays_ahead =
     (case get_upcoming_workdays e workdays_ahead of
        Inl err \<Rightarrow> Inl err
      | Inr ws \<Rightarrow>
          (case titles_to_dates issues of
             Inl err \<Rightarrow> Inl err
           | Inr ds \<Rightarrow> Inr (sorted_list_of_set (set ws - Option.these (set ds)))))"

section \<open>Lifecycle actions\<close>

fun close_loop :: "env \<Rightarrow> int \<Rightarrow> date \<Rightarrow> issue list \<Rightarrow> tracker \<Rightarrow> tracker \<times> (error + unit)" where
  "close_loop e lifespan tdy [] tr = (tr, Inr ())"
| "close_loop e lifespan tdy (i # rest) tr =
     (case issue_title_to_date (title i) of
        Inl err \<Rightarrow> (tr, Inl err)
      | Inr None \<Rightarrow> close_loop e lifespan tdy rest tr
      | Inr (Some dt) \<Rightarrow>
          (if date_sub tdy dt > lifespan
           then (let (failed, tr') = send e (EditState (number i) ''closed'') tr
                 in close_loop e lifespan tdy rest
                      (if failed then log_error ''Closing issue failed:'' tr' else tr'))
           else close_loop e lifespan tdy rest tr))"

definition close_old_issues :: "env \<Rightarrow> issue list \<Rightarrow> int \<Rightarrow> tracker \<Rightarrow> tracker \<times> (error + unit)" where
  "close_old_issues e issues lifespan tr =
     (case timedelta lifespan of
        Inl err \<Rightarrow> (tr, Inl err)
      | Inr lifespan' \<Rightarrow> close_loop e lifespan' (today e) issues tr)"

text \<open>\<^verbatim>\<open>sep.join(xs)\<close>\<close>

fun join :: "string \<Rightarrow> string list \<Rightarrow> string" where
  "join sep [] = []"
| "join sep [x] = x"
| "join sep (x # y # ys) = x @ sep @ join sep (y # ys)"

definition issue_body :: string where
  "issue_body = join [CHR 0x0A]
     [''Please be sure to include:'',
      ''  - What you worked on yesterday.'',
      ''  - What you plan on working on today.'',
      ''  - Any blockers.'']"

definition create_scrum_issue :: "env \<Rightarrow> date \<Rightarrow> tracker \<Rightarrow> tracker" where
  "create_scrum_issue e dt tr =
     (let (failed, tr') = send e (CreateIssue (issue_title dt) issue_body) tr
      in if failed then log_error ''Creating issue failed:'' tr' else tr')"

section \<open>The run\<close>

text \<open>
  The body of the script, on the open issues the tracker returned: close the old
  issues, then create an issue for every date that has none.
\<close>

definition main :: "env \<Rightarrow> issue list \<Rightarrow> int \<Rightarrow> int \<Rightarrow> tracker \<Rightarrow> tracker \<times> (error + unit)" where
  "main e issues lifespan workdays_ahead tr =
     (case close_old_issues e issues lifespan tr of
        (tr1, Inl err) \<Rightarrow> (tr1, Inl err)
      | (tr1, Inr u) \<Rightarrow>
          (case get_future_dates_without_issues e issues workdays_ahead of
             Inl err \<Rightarrow> (tr1, Inl err)
           | Inr dates \<Rightarrow> (fold (create_scrum_issue e) dates tr1, Inr ())))"

section \<open>The specification's notions\<close>

text \<open>
  A title has the date prefix when its first eleven characters are four digits, a
  hyphen, two digits, a hyphen, two digits and a colon. The three captured integers
  are then \<open>title_fields\<close>.
\<close>

definition has_date_prefix :: "string \<Rightarrow> bool" where
  "has_date_prefix t =
     (11 \<le> length t \<and>
      list_all is_digit (take 4 t) \<and> t ! 4 = CHR ''-'' \<and>
      list_all is_digit (take 2 (drop 5 t)) \<and> t ! 7 = CHR ''-'' \<and>
      list_all is_digit (take 2 (drop 8 t)) \<and> t ! 10 = CHR '':'')"

definition title_fields :: "string \<Rightarrow> int \<times> int \<times> int" where
  "title_fields t =
     (int_of_str (take 4 t), int_of_str (take 2 (drop 5 t)), int_of_str (take 2 (drop 8 t)))"

text \<open>
  The holiday name as the specification reads it: the name with the literal suffix
  \<^verbatim>\<open> (Observed)\<close> stripped, if the name ends with it.
\<close>

definition strip_observed_suffix :: "string \<Rightarrow> string" where
  "strip_observed_suffix name =
     (if suffix '' (Observed)'' name then take (length name - length '' (Observed)'') name
      else name)"

text \<open>The dates decoded from the titles of the issues, skipping the titles with no date.\<close>

definition decoded_dates :: "issue list \<Rightarrow> date set" where
  "decoded_dates issues =
     set (List.map_filter
            (\<lambda>i. case issue_title_to_date (title i) of Inr (Some d) \<Rightarrow> Some d | _ \<Rightarrow> None)
            issues)"

text \<open>
  An issue is old when its title decodes to a date and today minus that date is
  strictly more than the lifespan.
\<close>

definition is_old :: "date \<Rightarrow> int \<Rightarrow> issue \<Rightarrow> bool" where
  "is_old tdy lifespan i =
     (case issue_title_to_date (title i) of
        Inr (Some d) \<Rightarrow> lifespan < date_sub tdy d
      | _ \<Rightarrow> False)"

text \<open>The two kinds of request a run sends.\<close>

fun is_close :: "request \<Rightarrow> bool" where
  "is_close (EditState n s) = (s = ''closed'')"
| "is_close (CreateIssue t b) = False"

fun is_create :: "request \<Rightarrow> bool" where
  "is_create (EditState n s) = False"
| "is_create (CreateIssue t b) = True"

section \<open>Example runs\<close>

text \<open>
  The scenario of the last day of 2024, a Tuesday, with New Year's Day on the
  allow-list; the lines of the holiday file still carry their newline.
\<close>

definition fresh_tracker :: tracker where
  "fresh_tracker = \<lparr>requests = [], error_log = []\<rparr>"

definition env_example :: env where
  "env_example =
     \<lparr>today = (2024, 12, 31),
      pa_holidays = (\<lambda>d. if d = (2025, 1, 1) then Some ''New Year's Day''
                          else if d = (2022, 12, 26) then Some ''Christmas Day (Observed)''
                          else None),
      holidays_txt = [''# Holidays without a scrum'' @ [CHR 0x0A], ''New Year's Day'' @ [CHR 0x0A],
                      [CHR 0x0A], ''Christmas Day''],
      tracker_fails = (\<lambda>r. False)\<rparr>"

definition issues_example :: "issue list" where
  "issues_example =
     [\<lparr>number = 1, title = ''2025-01-02: e-scrum for Thursday, January 2, 2025''\<rparr>,
      \<lparr>number = 2, title = ''Random issue''\<rparr>]"

text \<open>The scenario of 2024-03-12 with issues of 8 and of 7 days of age.\<close>

definition env_march :: env where
  "env_march =
     \<lparr>today = (2024, 3, 12), pa_holidays = (\<lambda>d. None), holidays_txt = [],
      tracker_fails = (\<lambda>r. False)\<rparr>"

definition issues_march :: "issue list" where
  "issues_march =
     [\<lparr>number = 11, title = ''2024-03-04: e-scrum for Monday, March 4, 2024''\<rparr>,
      \<lparr>number = 12, title = ''2024-03-05: e-scrum for Tuesday, March 5, 2024''\<rparr>,
      \<lparr>number = 13, title = ''Random issue''\<rparr>]"

text \<open>The same day with an issue whose title has the date prefix of no calendar date.\<close>

definition issues_corrupt :: "issue list" where
  "issues_corrupt =
     [\<lparr>number = 10, title = ''2024-02-30: bad''\<rparr>,
      \<lparr>number = 11, title = ''2024-03-04: e-scrum for Monday, March 4, 2024''\<rparr>]"

text \<open>
  A calendar that reports two holidays on one date, the names joined, and an
  allow-list that holds this official name as it is.
\<close>

definition env_compound :: env where
  "env_compound =
     \<lparr>today = (2022, 12, 23),
      pa_holidays = (\<lambda>d. if d = (2022, 12, 26)
                          then Some ''Christmas Day (Observed); Day After Christmas'' else None),
      holidays_txt = [''# allow-list'', ''Christmas Day (Observed); Day After Christmas''],
      tracker_fails = (\<lambda>r. False)\<rparr>"

section \<open>Formatting and parsing numbers\<close>

lemma of_char_digit_char: "(of_char (digit_char n) :: nat) = 48 + n mod 10"
  by (simp add: digit_char_def)

lemma is_digit_digit_char: "is_digit (digit_char n)"
  by (simp add: is_digit_def of_char_digit_char)

lemma str_nat_1: "n < 10 \<Longrightarrow> str_nat n = [digit_char n]"
  by (subst str_nat.simps) simp

lemma str_nat_2: "10 \<le> n \<Longrightarrow> n < 100 \<Longrightarrow> str_nat n = [digit_char (n div 10), digit_char n]"
  by (subst str_nat.simps) (simp add: str_nat_1)

lemma str_nat_3: "100 \<le> n \<Longrightarrow> n < 1000 \<Longrightarrow>
    str_nat n = [digit_char (n div 100), digit_char (n div 10), digit_char n]"
  by (subst str_nat.simps) (simp add: str_nat_2 div_mult2_eq [symmetric])

lemma str_nat_4: "1000 \<le> n \<Longrightarrow> n < 10000 \<Longrightarrow>
    str_nat n = [digit_char (n div 1000), digit_char (n div 100), digit_char (n div 10), digit_char n]"
  by (subst str_nat.simps) (simp add: str_nat_3 div_mult2_eq [symmetric])

lemma char_of_48: "char_of (48 :: nat) = CHR ''0''"
  by (rule of_char_eqI [where ?'a = nat]) simp

lemma digit_char_0: "n < 10 \<Longrightarrow> digit_char (n div 10) = CHR ''0''"
  by (simp add: digit_char_def char_of_48)

lemma replicate_2: "replicate 2 c = [c, c]"
  by (simp add: numeral_2_eq_2)

lemma replicate_3: "replicate 3 c = [c, c, c]"
  by (simp add: numeral_3_eq_3)

lemma zero_pad_2:
  assumes "0 \<le> n" "n < 100"
  shows "zero_pad 2 n = [digit_char (nat n div 10), digit_char (nat n)]"
proof (cases "nat n < 10")
  case True
  then show ?thesis by (simp add: zero_pad_def str_nat_1 digit_char_def char_of_48 replicate_2 replicate_3)
next
  case False
  with assms show ?thesis by (simp add: zero_pad_def str_nat_2)
qed

lemma zero_pad_4:
  assumes "0 \<le> n" "n < 10000"
  shows "zero_pad 4 n =
    [digit_char (nat n div 1000), digit_char (nat n div 100), digit_char (nat n div 10),
     digit_char (nat n)]"
proof -
  consider "nat n < 10" | "10 \<le> nat n" "nat n < 100" | "100 \<le> nat n" "nat n < 1000"
    | "1000 \<le> nat n" "nat n < 10000"
    using assms by linarith
  then show ?thesis
  proof cases
    case 1
    then show ?thesis by (simp add: zero_pad_def str_nat_1 digit_char_def char_of_48 replicate_2 replicate_3)
  next
    case 2
    then show ?thesis by (simp add: zero_pad_def str_nat_2 digit_char_def char_of_48 replicate_2 replicate_3)
  next
    case 3
    then show ?thesis by (simp add: zero_pad_def str_nat_3 digit_char_def char_of_48 replicate_2 replicate_3)
  next
    case 4
    then show ?thesis by (simp add: zero_pad_def str_nat_4)
  qed
qed


lemma digits_2: "int n = 10 * int (n div 10 mod 10) + int (n mod 10)" if "n < 100"
proof -
  have "n div 10 < 10" using that by simp
  then have "n div 10 mod 10 = n div 10" by simp
  moreover have "n = 10 * (n div 10) + n mod 10" by simp
  ultimately show ?thesis by linarith
qed

lemma digits_4:
  "int n = 1000 * int (n div 1000) + 100 * int (n div 100 mod 10) + 10 * int (n div 10 mod 10)
     + int (n mod 10)"
proof -
  define a where "a = n div 10"
  define b where "b = a div 10"
  define c where "c = b div 10"
  have b: "n div 100 = b"
    by (simp add: a_def b_def div_mult2_eq [symmetric])
  have c: "n div 1000 = c"
    by (simp add: a_def b_def c_def div_mult2_eq [symmetric])
  have "n = 10 * a + n mod 10" "a = 10 * b + a mod 10" "b = 10 * c + b mod 10"
    by (simp_all add: a_def b_def c_def)
  then have "int n = 1000 * int c + 100 * int (b mod 10) + 10 * int (a mod 10) + int (n mod 10)"
    by linarith
  then show ?thesis
    by (simp only: b c a_def [symmetric])
qed

lemma int_of_str_2:
  "int_of_str [digit_char (n div 10), digit_char n] = int n" if "n < 100"
  using digits_2 [OF that] by (simp add: int_of_str_def of_char_digit_char)

lemma int_of_str_4:
  "int_of_str [digit_char (n div 1000), digit_char (n div 100), digit_char (n div 10),
     digit_char n] = int n" if "n < 10000"
proof -
  have "n div 1000 < 10" using that by simp
  then have "n div 1000 mod 10 = n div 1000" by simp
  then show ?thesis
    using digits_4 [of n] by (simp add: int_of_str_def of_char_digit_char)
qed

section \<open>The title pattern\<close>

lemma match_digits_eq:
  "match_digits k s =
     (if k \<le> length s \<and> list_all is_digit (take k s) then Some (take k s, drop k s) else None)"
  by (induction k s rule: match_digits.induct) auto

lemma match_char_eq:
  "match_char c s = (if 1 \<le> length s \<and> s ! 0 = c then Some (drop 1 s) else None)"
  by (cases s) auto

lemma pattern_match_eq:
  "pattern_match t =
     (if has_date_prefix t then Some (take 4 t, take 2 (drop 5 t), take 2 (drop 8 t)) else None)"
  by (auto simp: pattern_match_def has_date_prefix_def match_digits_eq match_char_eq)

lemma issue_title_to_date_eq:
  "issue_title_to_date t =
     (if has_date_prefix t
      then (if valid_date (title_fields t) then Inr (Some (title_fields t)) else Inl ValueError)
      else Inr None)"
  by (simp add: issue_title_to_date_def pattern_match_eq title_fields_def date_new_def)

lemma month_cases:
  "1 \<le> m \<Longrightarrow> m \<le> 12 \<Longrightarrow> m \<in> {1, 2, 3, 4, 5, 6, 7, 8, 9, 10, 11, 12 :: int}"
  by simp arith

lemma days_in_month_le_31: "days_in_month y m \<le> 31"
proof (cases "1 \<le> m \<and> m \<le> 12")
  case True
  then have "m \<in> {1, 2, 3, 4, 5, 6, 7, 8, 9, 10, 11, 12}"
    using month_cases [of m] by blast
  then show ?thesis
    by (auto simp: days_in_month_def DAYS_IN_MONTH_def)
next
  case False
  then show ?thesis
    by (auto simp: days_in_month_def)
qed

lemma isoformat_explicit:
  assumes "valid_date (y, m, d)"
  shows "isoformat (y, m, d) =
    [digit_char (nat y div 1000), digit_char (nat y div 100), digit_char (nat y div 10),
     digit_char (nat y), CHR ''-'', digit_char (nat m div 10), digit_char (nat m), CHR ''-'',
     digit_char (nat d div 10), digit_char (nat d)]"
proof -
  have y: "0 \<le> y" "y < 10000" and m: "0 \<le> m" "m < 100" and "1 \<le> d" "d \<le> days_in_month y m"
    using assms by (simp_all add: valid_date_def year_def month_def day_def MINYEAR_def MAXYEAR_def)
  then have d: "0 \<le> d" "d < 100"
    using days_in_month_le_31 [of y m] by simp_all
  show ?thesis
    by (simp add: isoformat_def year_def month_def day_def zero_pad_4 [OF y] zero_pad_2 [OF m]
        zero_pad_2 [OF d])
qed

lemma decode_isoformat:
  assumes "valid_date dt"
  shows "issue_title_to_date (isoformat dt @ '':'' @ sfx) = Inr (Some dt)"
proof -
  obtain y m d where dt: "dt = (y, m, d)"
    by (cases dt) auto
  have y: "0 \<le> y" "y < 10000" and m: "0 \<le> m" "m < 100" and "1 \<le> d" "d \<le> days_in_month y m"
    using assms
    by (simp_all add: dt valid_date_def year_def month_def day_def MINYEAR_def MAXYEAR_def)
  then have d: "0 \<le> d" "d < 100"
    using days_in_month_le_31 [of y m] by simp_all
  have ny: "nat y < 10000" and nm: "nat m < 100" and nd: "nat d < 100"
    using y m d by simp_all
  have p: "has_date_prefix (isoformat (y, m, d) @ '':'' @ sfx)"
    using assms
    by (simp add: dt isoformat_explicit has_date_prefix_def is_digit_digit_char)
  have f: "title_fields (isoformat (y, m, d) @ '':'' @ sfx) = (y, m, d)"
    using assms y m d
    by (simp add: dt isoformat_explicit title_fields_def int_of_str_4 [OF ny] int_of_str_2 [OF nm]
        int_of_str_2 [OF nd])
  show ?thesis
    using assms p f by (simp add: issue_title_to_date_eq dt)
qed


section \<open>Title codec: the claims\<close>

text \<open>
  C5. For every valid calendar date \<open>d\<close>, the title that issue creation builds for \<open>d\<close>
  decodes to \<open>d\<close>; so does the ISO date followed by a colon and any other text, so the
  readable part after the colon has no influence on the decoded date.
\<close>

theorem title_roundtrip:
  assumes "valid_date d"
  shows "issue_title_to_date (issue_title d) = Inr (Some d) \<and>
         issue_title_to_date (isoformat d @ '':'' @ rest) = Inr (Some d)"
proof -
  have "issue_title d = isoformat d @ '':'' @ ('' e-scrum for '' @ strftime_long d)"
    by (simp add: issue_title_def)
  then show ?thesis
    using decode_isoformat [OF assms] by simp
qed

theorem title_roundtrip_witness:
  "valid_date (2024, 3, 4) \<and>
   issue_title (2024, 3, 4) = ''2024-03-04: e-scrum for Monday, March 4, 2024'' \<and>
   issue_title_to_date ''2024-03-04: e-scrum for Monday, March 4, 2024'' = Inr (Some (2024, 3, 4)) \<and>
   issue_title_to_date (isoformat (2024, 3, 4) @ '':'' @ '' anything'') = Inr (Some (2024, 3, 4))"
proof -
  have v: "valid_date (2024, 3, 4)"
    by code_simp
  have t: "issue_title (2024, 3, 4) = ''2024-03-04: e-scrum for Monday, March 4, 2024''"
    by code_simp
  show ?thesis
    using title_roundtrip [OF v, of "'' anything''"] v t by simp
qed

text \<open>
  C6. For every title, \<open>issue_title_to_date\<close> returns "no date" without an exception
  exactly when the title has no date prefix; when the prefix matches and the three
  captured integers are no calendar date (as in 2024-02-30) the value error of the date
  constructor leaves \<open>issue_title_to_date\<close>; otherwise the date of the three integers is
  returned.
\<close>

theorem title_decode_cases:
  "(issue_title_to_date t = Inr None \<longleftrightarrow> \<not> has_date_prefix t) \<and>
   (has_date_prefix t \<and> \<not> valid_date (title_fields t) \<longrightarrow>
      issue_title_to_date t = Inl ValueError) \<and>
   (has_date_prefix t \<and> valid_date (title_fields t) \<longrightarrow>
      issue_title_to_date t = Inr (Some (title_fields t)))"
  by (simp add: issue_title_to_date_eq)

theorem title_decode_cases_witness:
  "has_date_prefix ''2024-02-30: bad'' \<and> title_fields ''2024-02-30: bad'' = (2024, 2, 30) \<and>
   \<not> valid_date (2024, 2, 30) \<and> issue_title_to_date ''2024-02-30: bad'' = Inl ValueError \<and>
   \<not> has_date_prefix ''Random issue'' \<and> issue_title_to_date ''Random issue'' = Inr None"
proof -
  have p: "has_date_prefix ''2024-02-30: bad''"
    by code_simp
  have f: "title_fields ''2024-02-30: bad'' = (2024, 2, 30)"
    by code_simp
  have v: "\<not> valid_date (2024, 2, 30)"
    by code_simp
  have r: "\<not> has_date_prefix ''Random issue''"
    by code_simp
  show ?thesis
    using title_decode_cases [of "''2024-02-30: bad''"] title_decode_cases [of "''Random issue''"]
      p f v r by simp
qed

section \<open>Workdays and holidays: the claims\<close>

lemma weekday_range: "0 \<le> weekday d \<and> weekday d < 7"
  by (simp add: weekday_def)

lemma day_name_Saturday: "day_name d = ''Saturday'' \<longleftrightarrow> weekday d = 5"
proof -
  have "weekday d \<in> {0, 1, 2, 3, 4, 5, 6}"
    using weekday_range [of d] by simp arith
  then show ?thesis
    by (auto simp: day_name_def DAY_NAMES_def)
qed

lemma day_name_Sunday: "day_name d = ''Sunday'' \<longleftrightarrow> weekday d = 6"
proof -
  have "weekday d \<in> {0, 1, 2, 3, 4, 5, 6}"
    using weekday_range [of d] by simp arith
  then show ?thesis
    by (auto simp: day_name_def DAY_NAMES_def)
qed

text \<open>
  C3. For every date \<open>d\<close>, \<open>is_workday\<close> holds exactly when the weekday of \<open>d\<close> is neither
  Saturday nor Sunday (as a name, and as the weekday numbers 5 and 6) and \<open>d\<close> is no
  holiday.
\<close>

theorem is_workday_iff:
  "(is_workday e d \<longleftrightarrow>
      day_name d \<noteq> ''Saturday'' \<and> day_name d \<noteq> ''Sunday'' \<and> \<not> is_holiday e d) \<and>
   (is_workday e d \<longleftrightarrow> weekday d \<noteq> 5 \<and> weekday d \<noteq> 6 \<and> \<not> is_holiday e d)"
  by (simp add: is_workday_def WEEKEND_def day_name_Saturday day_name_Sunday)

theorem is_workday_iff_witness:
  "day_name (2025, 1, 3) = ''Friday'' \<and> is_workday env_example (2025, 1, 3) \<and>
   day_name (2025, 1, 4) = ''Saturday'' \<and> \<not> is_workday env_example (2025, 1, 4) \<and>
   day_name (2025, 1, 5) = ''Sunday'' \<and> \<not> is_workday env_example (2025, 1, 5) \<and>
   day_name (2025, 1, 1) = ''Wednesday'' \<and> is_holiday env_example (2025, 1, 1) \<and>
   \<not> is_workday env_example (2025, 1, 1)"
proof -
  have n: "day_name (2025, 1, 3) = ''Friday''" "day_name (2025, 1, 4) = ''Saturday''"
    "day_name (2025, 1, 5) = ''Sunday''" "day_name (2025, 1, 1) = ''Wednesday''"
    by code_simp+
  have h: "\<not> is_holiday env_example (2025, 1, 3)" "is_holiday env_example (2025, 1, 1)"
    by code_simp+
  show ?thesis
    using is_workday_iff [of env_example "(2025, 1, 3)"] is_workday_iff [of env_example "(2025, 1, 4)"]
      is_workday_iff [of env_example "(2025, 1, 5)"] is_workday_iff [of env_example "(2025, 1, 1)"]
      n h by simp
qed

lemma empty_not_allowed: "[] \<notin> get_holidays e"
  by (simp add: get_holidays_def)

lemma no_name_no_holiday: "pa_holidays e d = None \<Longrightarrow> \<not> is_holiday e d"
  by (simp add: is_holiday_def replace_def empty_not_allowed)

lemma replace_from_absent:
  "\<not> sublist old s \<Longrightarrow> replace_from old new 0 s = s"
proof (induction s)
  case Nil
  then show ?case by simp
next
  case (Cons c s)
  then have "\<not> prefix old (c # s)" "\<not> sublist old s"
    by (auto simp: sublist_Cons_right)
  with Cons.IH show ?case by simp
qed

lemma replace_from_skip: "replace_from old new (length s) s = []"
  by (induction s) auto

lemma no_border:
  assumes "prefix (a # q) (xs @ a # q)" "xs \<noteq> []" "a \<notin> set q"
  shows "prefix (a # q) xs"
proof -
  from assms(1) consider "prefix (a # q) xs" | us where "a # q = xs @ us" "prefix us (a # q)"
    by (auto simp: prefix_append)
  then show ?thesis
  proof cases
    case 1
    then show ?thesis .
  next
    case 2
    from 2(1) assms(2) obtain xs' where xs: "xs = a # xs'" "q = xs' @ us"
      by (cases xs) auto
    show ?thesis
    proof (cases us)
      case Nil
      with 2(1) show ?thesis by simp
    next
      case (Cons u us')
      with 2(2) have "u = a" by simp
      with Cons xs(2) assms(3) show ?thesis by simp
    qed
  qed
qed

lemma replace_from_suffix:
  assumes "a \<notin> set q"
  shows "\<not> sublist (a # q) base \<Longrightarrow> replace_from (a # q) [] 0 (base @ a # q) = base"
proof (induction base)
  case Nil
  then show ?case by (simp add: replace_from_skip)
next
  case (Cons c base)
  then have n: "\<not> prefix (a # q) (c # base)" "\<not> sublist (a # q) base"
    by (auto simp: sublist_Cons_right)
  have "\<not> prefix (a # q) ((c # base) @ a # q)"
    using no_border [of a q "c # base"] n(1) assms by blast
  then have "\<not> prefix (a # q) (c # base @ a # q)"
    by simp
  then have "replace_from (a # q) [] 0 (c # base @ a # q) =
      c # replace_from (a # q) [] 0 (base @ a # q)"
    by (simp only: replace_from.simps if_False)
  then show ?case
    using Cons.IH [OF n(2)] by simp
qed

lemma replace_observed_suffix:
  "\<not> sublist '' (Observed)'' base \<Longrightarrow>
   replace '' (Observed)'' [] (base @ '' (Observed)'') = base"
  using replace_from_suffix [of "CHR '' ''" "''(Observed)''" base]
  by (simp add: replace_def)

lemma replace_observed_agrees:
  assumes "\<not> sublist '' (Observed)'' (strip_observed_suffix name)"
  shows "replace '' (Observed)'' [] name = strip_observed_suffix name"
proof (cases "suffix '' (Observed)'' name")
  case True
  then obtain base where b: "name = base @ '' (Observed)''"
    by (auto simp: suffix_def)
  have "suffix '' (Observed)'' (base @ '' (Observed)'')"
    by (rule suffixI) (rule refl)
  then have s: "strip_observed_suffix name = base"
    unfolding b strip_observed_suffix_def by simp
  from assms have "\<not> sublist '' (Observed)'' base"
    unfolding s .
  then have r: "replace '' (Observed)'' [] (base @ '' (Observed)'') = base"
    by (rule replace_observed_suffix)
  show ?thesis
    apply (simp only: s)
    apply (simp only: b r)
    done
next
  case False
  then show ?thesis
    using assms replace_from_absent [of "'' (Observed)''" name]
    by (simp add: strip_observed_suffix_def replace_def)
qed

text \<open>
  C4, as amended. For every date \<open>d\<close>, \<open>is_holiday\<close> holds exactly when \<open>d\<close> has an official
  holiday name and that name with every occurrence of the literal \<^verbatim>\<open> (Observed)\<close> removed
  (not only a trailing one) is on the allow-list of the holiday file; a date with no
  official name is never a holiday, whatever the allow-list holds; and whenever the
  literal occurs in the name nowhere but as its suffix, this is the name with the suffix
  stripped.
\<close>

theorem is_holiday_replace_all:
  "(is_holiday e d \<longleftrightarrow>
      (case pa_holidays e d of
         None \<Rightarrow> False
       | Some name \<Rightarrow> replace '' (Observed)'' [] name \<in> get_holidays e)) \<and>
   (pa_holidays e d = None \<longrightarrow> \<not> is_holiday e d) \<and>
   (\<forall>name. pa_holidays e d = Some name \<and>
       \<not> sublist '' (Observed)'' (strip_observed_suffix name) \<longrightarrow>
       (is_holiday e d \<longleftrightarrow> strip_observed_suffix name \<in> get_holidays e))"
proof (intro conjI allI impI)
  show "is_holiday e d \<longleftrightarrow>
      (case pa_holidays e d of
         None \<Rightarrow> False
       | Some name \<Rightarrow> replace '' (Observed)'' [] name \<in> get_holidays e)"
    using no_name_no_holiday [of e d] by (simp add: is_holiday_def split: option.splits)
  show "\<not> is_holiday e d" if "pa_holidays e d = None"
    using that by (rule no_name_no_holiday)
  show "is_holiday e d \<longleftrightarrow> strip_observed_suffix name \<in> get_holidays e"
    if "pa_holidays e d = Some name \<and> \<not> sublist '' (Observed)'' (strip_observed_suffix name)"
    for name
    using that replace_observed_agrees [of name] by (simp add: is_holiday_def)
qed

theorem is_holiday_replace_all_witness:
  "pa_holidays env_example (2022, 12, 26) = Some ''Christmas Day (Observed)'' \<and>
   strip_observed_suffix ''Christmas Day (Observed)'' = ''Christmas Day'' \<and>
   \<not> sublist '' (Observed)'' ''Christmas Day'' \<and>
   ''Christmas Day'' \<in> get_holidays env_example \<and>
   is_holiday env_example (2022, 12, 26) \<and>
   pa_holidays env_example (2025, 1, 2) = None \<and> \<not> is_holiday env_example (2025, 1, 2)"
proof -
  have a: "pa_holidays env_example (2022, 12, 26) = Some ''Christmas Day (Observed)''"
    by code_simp
  have b: "strip_observed_suffix ''Christmas Day (Observed)'' = ''Christmas Day''"
    by code_simp
  have c: "\<not> sublist '' (Observed)'' ''Christmas Day''"
    by code_simp
  have d: "''Christmas Day'' \<in> get_holidays env_example"
    by code_simp
  have e: "pa_holidays env_example (2025, 1, 2) = None"
    by code_simp
  have c': "\<not> sublist '' (Observed)'' (strip_observed_suffix ''Christmas Day (Observed)'')"
    by code_simp
  have d': "strip_observed_suffix ''Christmas Day (Observed)'' \<in> get_holidays env_example"
    by code_simp
  note h = is_holiday_replace_all [of env_example "(2022, 12, 26)", THEN conjunct2,
      THEN conjunct2, THEN spec, of "''Christmas Day (Observed)''"]
  have "is_holiday env_example (2022, 12, 26)"
    using h [THEN mp, OF conjI [OF a c']] d' by (rule iffD2)
  moreover have "\<not> is_holiday env_example (2025, 1, 2)"
    using is_holiday_replace_all [of env_example "(2025, 1, 2)", THEN conjunct2,
        THEN conjunct1, THEN mp, OF e] .
  ultimately show ?thesis
    using a b c d e by (intro conjI)
qed

text \<open>
  C4 as first stated fails: with the official name
  \<^verbatim>\<open>Christmas Day (Observed); Day After Christmas\<close> on the allow-list as it is, the name
  with its suffix stripped (it has no such suffix) is on the allow-list, and
  \<open>is_holiday\<close> is false.
\<close>

theorem is_holiday_suffix_counterexample:
  "pa_holidays env_compound (2022, 12, 26) =
     Some ''Christmas Day (Observed); Day After Christmas'' \<and>
   strip_observed_suffix ''Christmas Day (Observed); Day After Christmas'' \<in>
     get_holidays env_compound \<and>
   \<not> is_holiday env_compound (2022, 12, 26)"
  by code_simp

section \<open>The day after a date\<close>

lemma days_in_month_ge_28:
  assumes "1 \<le> m" "m \<le> 12"
  shows "28 \<le> days_in_month y m"
proof -
  have "m \<in> {1, 2, 3, 4, 5, 6, 7, 8, 9, 10, 11, 12}"
    using assms by (rule month_cases)
  then show ?thesis
    by (auto simp: days_in_month_def DAYS_IN_MONTH_def)
qed

lemma valid_date_iff:
  "valid_date (y, m, d) \<longleftrightarrow>
     1 \<le> y \<and> y \<le> 9999 \<and> 1 \<le> m \<and> m \<le> 12 \<and> 1 \<le> d \<and> d \<le> days_in_month y m"
  by (simp add: valid_date_def year_def month_def day_def MINYEAR_def MAXYEAR_def)

lemma date_add_one_day_eq:
  "date_add_one_day (y, m, d) =
     (if d + 1 \<le> days_in_month y m then (if 1 \<le> y \<and> y \<le> 9999 then Inr (y, m, d + 1) else Inl OverflowError)
      else if m + 1 \<le> 12 then (if 1 \<le> y \<and> y \<le> 9999 then Inr (y, m + 1, 1) else Inl OverflowError)
      else (if 0 \<le> y \<and> y \<le> 9998 then Inr (y + 1, 1, 1) else Inl OverflowError))"
  by (simp add: date_add_one_day_def Let_def year_def month_def day_def MINYEAR_def MAXYEAR_def)

lemma add_one_day_greater:
  "date_add_one_day dt = Inr dt' \<Longrightarrow> dt < dt'"
  by (cases dt) (auto simp: date_add_one_day_eq split: if_splits)

lemma add_one_day_valid:
  assumes "valid_date dt" "date_add_one_day dt = Inr dt'"
  shows "valid_date dt'"
proof -
  obtain y m d where dt: "dt = (y, m, d)" by (cases dt) auto
  show ?thesis
    using assms days_in_month_ge_28 [of "m + 1" y] days_in_month_ge_28 [of 1 "y + 1"]
    by (auto simp: dt date_add_one_day_eq valid_date_iff split: if_splits)
qed

lemma date_less_cases:
  "(y, m, d) < (y2, m2, d2) \<longleftrightarrow>
     y < y2 \<or> y = y2 \<and> m < m2 \<or> y = y2 \<and> m = m2 \<and> d < (d2 :: int)"
  for y m y2 m2 :: int
  by auto

lemma add_one_day_least:
  assumes "valid_date dt" "date_add_one_day dt = Inr dt'" "valid_date x" "dt < x"
  shows "dt' \<le> x"
proof -
  obtain y m d where dt: "dt = (y, m, d)" by (cases dt) auto
  obtain y2 m2 d2 where x: "x = (y2, m2, d2)" by (cases x) auto
  from assms(4) consider "y < y2" | "y = y2" "m < m2" | "y = y2" "m = m2" "d < d2"
    unfolding dt x date_less_cases by blast
  then show ?thesis
  proof cases
    case 1
    with assms(1-3) show ?thesis
      by (auto simp: dt x date_add_one_day_eq valid_date_iff split: if_splits)
  next
    case 2
    with assms(1-3) show ?thesis
      by (auto simp: dt x date_add_one_day_eq valid_date_iff split: if_splits)
  next
    case 3
    with assms(1-3) show ?thesis
      by (auto simp: dt x date_add_one_day_eq valid_date_iff split: if_splits)
  qed
qed

lemma add_one_day_overflow:
  assumes "valid_date dt" "date_add_one_day dt = Inl err" "valid_date x"
  shows "x \<le> dt"
proof -
  obtain y m d where dt: "dt = (y, m, d)" by (cases dt) auto
  obtain y2 m2 d2 where x: "x = (y2, m2, d2)" by (cases x) auto
  have last: "y = 9999" "m = 12" "d = days_in_month y m"
    using assms(1,2) by (auto simp: dt date_add_one_day_eq valid_date_iff split: if_splits)
  have "days_in_month y2 12 \<le> days_in_month y 12"
    using days_in_month_le_31 [of y2 12] by (simp add: days_in_month_def DAYS_IN_MONTH_def)
  then show ?thesis
    using assms(3) last
    by (cases "m2 = 12") (auto simp: dt x valid_date_iff)
qed

text \<open>
  The day after a date has the next ordinal, so \<open>date_add_one_day\<close> is the library's
  \<^verbatim>\<open>date.fromordinal(date.toordinal() + 1)\<close>, and the weekday moves on by one.
\<close>

lemma days_before_month_Suc:
  assumes "1 \<le> m" "m \<le> 11"
  shows "days_before_month y (m + 1) = days_before_month y m + days_in_month y m"
proof -
  have "m \<in> {1, 2, 3, 4, 5, 6, 7, 8, 9, 10, 11}"
    using assms by simp arith
  then show ?thesis
    by (auto simp: days_before_month_def days_in_month_def DAYS_BEFORE_MONTH_def DAYS_IN_MONTH_def)
qed

lemma div_step:
  fixes y k :: int
  assumes "0 < k"
  shows "y div k = (y - 1) div k + (if y mod k = 0 then 1 else 0)"
proof (cases "y mod k = 0")
  case True
  define q where "q = y div k"
  have y: "y = k * q" using True unfolding q_def by (metis mult_div_mod_eq add.right_neutral)
  have "y - 1 = k * (q - 1) + (k - 1)"
    by (simp add: y algebra_simps)
  then have "(y - 1) div k = q - 1"
    by (rule int_div_pos_eq) (use assms in simp_all)
  then show ?thesis using True by (simp add: q_def)
next
  case False
  define r where "r = y mod k"
  define q where "q = y div k"
  have y: "y = k * q + r" by (simp add: r_def q_def)
  have "0 \<le> r" "r < k" "r \<noteq> 0"
    using False assms by (simp_all add: r_def)
  then have r: "0 \<le> r - 1" "r - 1 < k" by simp_all
  have "y - 1 = k * q + (r - 1)"
    by (simp add: y)
  then have "(y - 1) div k = q"
    using r by (rule int_div_pos_eq)
  then show ?thesis using False by (simp add: q_def)
qed

lemma days_before_year_Suc:
  "days_before_year (y + 1) = days_before_year y + 365 + (if is_leap y then 1 else 0)"
proof -
  have a: "y div 4 = (y - 1) div 4 + (if y mod 4 = 0 then 1 else 0)"
    by (rule div_step) simp
  have b: "y div 100 = (y - 1) div 100 + (if y mod 100 = 0 then 1 else 0)"
    by (rule div_step) simp
  have c: "y div 400 = (y - 1) div 400 + (if y mod 400 = 0 then 1 else 0)"
    by (rule div_step) simp
  have "(4::int) dvd 100" "(100::int) dvd 400"
    by simp_all
  then have d: "y mod 100 = 0 \<Longrightarrow> y mod 4 = 0" and e: "y mod 400 = 0 \<Longrightarrow> y mod 100 = 0"
    by (meson dvd_trans mod_eq_0_iff_dvd)+
  have "days_before_year (y + 1) = y * 365 + y div 4 - y div 100 + y div 400"
    by (simp add: days_before_year_def)
  also have "\<dots> = days_before_year y + 365 + (if is_leap y then 1 else 0)"
    unfolding a b c days_before_year_def Let_def is_leap_def
    using d e by (cases "y mod 4 = 0"; cases "y mod 100 = 0"; cases "y mod 400 = 0") simp_all
  finally show ?thesis .
qed


lemma toordinal_add_one_day:
  assumes "valid_date dt" "date_add_one_day dt = Inr dt'"
  shows "toordinal dt' = toordinal dt + 1"
proof -
  obtain y m d where dt: "dt = (y, m, d)" by (cases dt) auto
  have v: "1 \<le> y" "y \<le> 9999" "1 \<le> m" "m \<le> 12" "1 \<le> d" "d \<le> days_in_month y m"
    using assms(1) by (simp_all add: dt valid_date_iff)
  consider (a) "d + 1 \<le> days_in_month y m" "dt' = (y, m, d + 1)"
    | (b) "d = days_in_month y m" "m \<le> 11" "dt' = (y, m + 1, 1)"
    | (c) "d = days_in_month y m" "m = 12" "dt' = (y + 1, 1, 1)"
    using assms(2) v by (cases "m = 12") (auto simp: dt date_add_one_day_eq split: if_splits)
  then show ?thesis
  proof cases
    case a
    then show ?thesis by (simp add: dt toordinal_def year_def month_def day_def)
  next
    case b
    then show ?thesis
      using days_before_month_Suc [OF v(3) b(2), of y]
      by (simp add: dt toordinal_def year_def month_def day_def)
  next
    case c
    then show ?thesis
      using days_before_year_Suc [of y]
      by (simp add: dt toordinal_def year_def month_def day_def days_before_month_def
          days_in_month_def DAYS_BEFORE_MONTH_def DAYS_IN_MONTH_def)
  qed
qed

lemma weekday_add_one_day:
  assumes "valid_date dt" "date_add_one_day dt = Inr dt'"
  shows "weekday dt' = (weekday dt + 1) mod 7"
  using toordinal_add_one_day [OF assms] by (simp add: weekday_def mod_simps add.commute)

section \<open>Upcoming workdays: the claims\<close>

lemma upcoming_loop_done:
  "\<not> i < n \<Longrightarrow> upcoming_loop e dt i n = Inr []"
  by (subst upcoming_loop.simps) simp

lemma upcoming_loop_step:
  "i < n \<Longrightarrow> upcoming_loop e dt i n =
     (case date_add_one_day dt of
        Inl err \<Rightarrow> Inl err
      | Inr dt' \<Rightarrow>
          (if is_workday e dt'
           then (case upcoming_loop e dt' (i + 1) n of
                   Inl err \<Rightarrow> Inl err
                 | Inr ys \<Rightarrow> Inr (dt' # ys))
           else upcoming_loop e dt' i n))"
  by (subst upcoming_loop.simps) simp

lemma upcoming_loop_workdays:
  "upcoming_loop e dt i n = Inr ws \<Longrightarrow> w \<in> set ws \<Longrightarrow> is_workday e w \<and> dt < w"
proof (induction e dt i n arbitrary: ws rule: upcoming_loop.induct)
  case (1 e dt i n)
  show ?case
  proof (cases "i < n")
    case False
    with "1.prems" show ?thesis by (simp add: upcoming_loop_done)
  next
    case True
    with "1.prems"(1) obtain dt' where a: "date_add_one_day dt = Inr dt'"
      by (auto simp: upcoming_loop_step split: sum.splits)
    have lt: "dt < dt'" using a by (rule add_one_day_greater)
    show ?thesis
    proof (cases "is_workday e dt'")
      case wd: True
      with "1.prems"(1) True a obtain ys where
        ys: "upcoming_loop e dt' (i + 1) n = Inr ys" "ws = dt' # ys"
        by (auto simp: upcoming_loop_step split: sum.splits)
      from "1.prems"(2) ys(2) consider "w = dt'" | "w \<in> set ys" by auto
      then show ?thesis
      proof cases
        case 1
        with wd lt show ?thesis by simp
      next
        case 2
        from "1.IH"(1) [OF True a wd ys(1) 2] lt show ?thesis by auto
      qed
    next
      case nwd: False
      with "1.prems"(1) True a have "upcoming_loop e dt' i n = Inr ws"
        by (simp add: upcoming_loop_step)
      from "1.IH"(2) [OF True a nwd this "1.prems"(2)] lt show ?thesis by auto
    qed
  qed
qed

lemma upcoming_loop_spec:
  "valid_date dt \<Longrightarrow> upcoming_loop e dt i n = Inr ws \<Longrightarrow>
     int (length ws) = max 0 (n - i) \<and> sorted_wrt (<) ws \<and> (\<forall>w \<in> set ws. valid_date w) \<and>
     (\<forall>x. valid_date x \<and> dt < x \<and> is_workday e x \<and> x \<notin> set ws \<longrightarrow> (\<forall>w \<in> set ws. w < x))"
proof (induction e dt i n arbitrary: ws rule: upcoming_loop.induct)
  case (1 e dt i n)
  show ?case
  proof (cases "i < n")
    case False
    with "1.prems" show ?thesis by (simp add: upcoming_loop_done)
  next
    case True
    with "1.prems"(2) obtain dt' where a: "date_add_one_day dt = Inr dt'"
      by (auto simp: upcoming_loop_step split: sum.splits)
    have lt: "dt < dt'" using a by (rule add_one_day_greater)
    have v: "valid_date dt'" using "1.prems"(1) a by (rule add_one_day_valid)
    have least: "dt' \<le> x" if "valid_date x" "dt < x" for x
      using "1.prems"(1) a that by (rule add_one_day_least)
    show ?thesis
    proof (cases "is_workday e dt'")
      case wd: True
      with "1.prems"(2) True a obtain ys where
        ys: "upcoming_loop e dt' (i + 1) n = Inr ys" "ws = dt' # ys"
        by (auto simp: upcoming_loop_step split: sum.splits)
      note ih = "1.IH"(1) [OF True a wd v ys(1)]
      have gt: "dt' < y" if "y \<in> set ys" for y
        using upcoming_loop_workdays [OF ys(1) that] by simp
      have "int (length ws) = max 0 (n - i)"
        using ih True by (simp add: ys(2))
      moreover have "sorted_wrt (<) ws"
        using ih gt by (simp add: ys(2))
      moreover have "\<forall>w \<in> set ws. valid_date w"
        using ih v by (simp add: ys(2))
      moreover have "\<forall>w \<in> set ws. w < x"
        if "valid_date x \<and> dt < x \<and> is_workday e x \<and> x \<notin> set ws" for x
      proof -
        from that have "dt' \<le> x" "x \<noteq> dt'" using least [of x] by (auto simp: ys(2))
        then have lt': "dt' < x" by simp
        from that have "x \<notin> set ys" by (simp add: ys(2))
        with ih that lt' have "\<forall>w \<in> set ys. w < x" by blast
        with lt' show ?thesis by (simp add: ys(2))
      qed
      ultimately show ?thesis by blast
    next
      case nwd: False
      with "1.prems"(2) True a have r: "upcoming_loop e dt' i n = Inr ws"
        by (simp add: upcoming_loop_step)
      note ih = "1.IH"(2) [OF True a nwd v r]
      have "\<forall>w \<in> set ws. w < x"
        if "valid_date x \<and> dt < x \<and> is_workday e x \<and> x \<notin> set ws" for x
      proof -
        from that nwd have "dt' \<le> x" "x \<noteq> dt'" using least [of x] by auto
        then have "dt' < x" by simp
        then show ?thesis using ih that by blast
      qed
      with ih show ?thesis by blast
    qed
  qed
qed

lemma upcoming_loop_returns:
  "valid_date dt \<Longrightarrow> distinct ds \<Longrightarrow> n - i \<le> int (length ds) \<Longrightarrow>
   (\<forall>d \<in> set ds. valid_date d \<and> dt < d \<and> is_workday e d) \<Longrightarrow>
   \<exists>ws. upcoming_loop e dt i n = Inr ws"
proof (induction e dt i n arbitrary: ds rule: upcoming_loop.induct)
  case (1 e dt i n)
  show ?case
  proof (cases "i < n")
    case False
    then show ?thesis by (simp add: upcoming_loop_done)
  next
    case True
    with "1.prems"(3) obtain d0 where d0: "d0 \<in> set ds"
      by (cases ds) auto
    have "\<exists>dt'. date_add_one_day dt = Inr dt'"
    proof (cases "date_add_one_day dt")
      case (Inl err)
      from "1.prems"(4) d0 have "valid_date d0" "dt < d0" by auto
      with add_one_day_overflow [OF "1.prems"(1) Inl, of d0] show ?thesis by simp
    next
      case (Inr dt')
      then show ?thesis by blast
    qed
    then obtain dt' where a: "date_add_one_day dt = Inr dt'" ..
    have v: "valid_date dt'" using "1.prems"(1) a by (rule add_one_day_valid)
    have least: "dt' \<le> x" if "valid_date x" "dt < x" for x
      using "1.prems"(1) a that by (rule add_one_day_least)
    show ?thesis
    proof (cases "is_workday e dt'")
      case wd: True
      let ?ds = "remove1 dt' ds"
      have "distinct ?ds" using "1.prems"(2) by simp
      moreover have "n - (i + 1) \<le> int (length ?ds)"
        using "1.prems"(3) by (cases "dt' \<in> set ds") (simp_all add: length_remove1)
      moreover have "\<forall>d \<in> set ?ds. valid_date d \<and> dt' < d \<and> is_workday e d"
      proof
        fix d assume "d \<in> set ?ds"
        then have "d \<in> set ds" "d \<noteq> dt'" using "1.prems"(2) by auto
        with "1.prems"(4) least [of d] show "valid_date d \<and> dt' < d \<and> is_workday e d"
          by auto
      qed
      ultimately obtain ys where "upcoming_loop e dt' (i + 1) n = Inr ys"
        using "1.IH"(1) [OF True a wd v] by blast
      then show ?thesis using True a wd by (simp add: upcoming_loop_step)
    next
      case nwd: False
      have "\<forall>d \<in> set ds. valid_date d \<and> dt' < d \<and> is_workday e d"
      proof
        fix d assume "d \<in> set ds"
        with "1.prems"(4) nwd least [of d] show "valid_date d \<and> dt' < d \<and> is_workday e d"
          by (cases "d = dt'") auto
      qed
      then obtain ys where "upcoming_loop e dt' i n = Inr ys"
        using "1.IH"(2) [OF True a nwd v "1.prems"(2,3)] by blast
      then show ?thesis using True a nwd by (simp add: upcoming_loop_step)
    qed
  qed
qed

lemma get_upcoming_workdays_members:
  assumes "get_upcoming_workdays e n = Inr ws" "w \<in> set ws"
  shows "is_workday e w \<and> today e \<le> w"
proof -
  from assms(1) obtain ys where ys: "upcoming_loop e (today e) 0 n = Inr ys"
    "ws = (if is_workday e (today e) then today e # ys else ys)"
    by (auto simp: get_upcoming_workdays_def Let_def split: sum.splits)
  from assms(2) ys(2) consider "w = today e" "is_workday e (today e)" | "w \<in> set ys"
    by (auto split: if_splits)
  then show ?thesis
  proof cases
    case 1
    then show ?thesis by simp
  next
    case 2
    from upcoming_loop_workdays [OF ys(1) 2] show ?thesis
      using order.strict_implies_order by blast
  qed
qed

text \<open>
  C9. For every \<open>workdays_ahead \<le> 0\<close>, \<open>get_upcoming_workdays\<close> yields today if today is
  a workday and nothing otherwise, and no other date.
\<close>

theorem upcoming_nonpositive:
  assumes "workdays_ahead \<le> 0"
  shows "get_upcoming_workdays e workdays_ahead =
           Inr (if is_workday e (today e) then [today e] else [])"
  using assms by (simp add: get_upcoming_workdays_def upcoming_loop_done)

theorem upcoming_nonpositive_witness:
  "(- 3 :: int) \<le> 0 \<and> is_workday env_example (today env_example) \<and>
   get_upcoming_workdays env_example (- 3) = Inr [(2024, 12, 31)]"
proof -
  have n: "(- 3 :: int) \<le> 0"
    by simp
  have w: "is_workday env_example (today env_example)"
    by code_simp
  have t: "today env_example = (2024, 12, 31)"
    by code_simp
  show ?thesis
    using upcoming_nonpositive [OF n, of env_example] w t by simp
qed

text \<open>
  C2. For every \<open>workdays_ahead \<ge> 0\<close>, provided that many workdays exist after today,
  \<open>get_upcoming_workdays\<close> returns: today first exactly when today is a workday (outside
  the budget), then exactly \<open>workdays_ahead\<close> dates \<open>ws\<close>, strictly ascending, each a
  workday after today, and the earliest such (every workday after today that is not
  among them is later than all of them); no yielded date is a Saturday, a Sunday or a
  holiday.
\<close>

theorem upcoming_workdays_spec:
  assumes "0 \<le> workdays_ahead" and "valid_date (today e)"
    and "\<exists>ds. distinct ds \<and> int (length ds) = workdays_ahead \<and>
              (\<forall>d \<in> set ds. valid_date d \<and> today e < d \<and> is_workday e d)"
  shows "\<exists>ws. get_upcoming_workdays e workdays_ahead =
                Inr ((if is_workday e (today e) then [today e] else []) @ ws) \<and>
           int (length ws) = workdays_ahead \<and> sorted_wrt (<) ws \<and>
           (\<forall>w \<in> set ws. valid_date w \<and> today e < w \<and> is_workday e w) \<and>
           (\<forall>x. valid_date x \<and> today e < x \<and> is_workday e x \<and> x \<notin> set ws \<longrightarrow>
                (\<forall>w \<in> set ws. w < x)) \<and>
           (\<forall>w \<in> set ((if is_workday e (today e) then [today e] else []) @ ws).
                weekday w \<noteq> 5 \<and> weekday w \<noteq> 6 \<and> \<not> is_holiday e w)"
proof -
  from assms(3) obtain ds where ds: "distinct ds" "workdays_ahead - 0 \<le> int (length ds)"
    "\<forall>d \<in> set ds. valid_date d \<and> today e < d \<and> is_workday e d"
    by auto
  from upcoming_loop_returns [OF assms(2) ds] obtain ws where
    ws: "upcoming_loop e (today e) 0 workdays_ahead = Inr ws"
    by blast
  note spec = upcoming_loop_spec [OF assms(2) ws]
  have wd: "\<forall>w \<in> set ws. is_workday e w \<and> today e < w"
    using upcoming_loop_workdays [OF ws] by blast
  have "get_upcoming_workdays e workdays_ahead =
          Inr ((if is_workday e (today e) then [today e] else []) @ ws)"
    by (simp add: get_upcoming_workdays_def ws)
  moreover have "int (length ws) = workdays_ahead"
    using spec assms(1) by simp
  moreover have "\<forall>w \<in> set ((if is_workday e (today e) then [today e] else []) @ ws).
      weekday w \<noteq> 5 \<and> weekday w \<noteq> 6 \<and> \<not> is_holiday e w"
    using wd by (auto simp: is_workday_def WEEKEND_def)
  ultimately show ?thesis
    using spec wd by blast
qed

theorem upcoming_workdays_witness:
  "(0 :: int) \<le> 2 \<and> valid_date (today env_example) \<and>
   (\<exists>ds. distinct ds \<and> int (length ds) = 2 \<and>
      (\<forall>d \<in> set ds. valid_date d \<and> today env_example < d \<and> is_workday env_example d)) \<and>
   get_upcoming_workdays env_example 2 = Inr [(2024, 12, 31), (2025, 1, 2), (2025, 1, 3)] \<and>
   (\<exists>ws. get_upcoming_workdays env_example 2 =
            Inr ((if is_workday env_example (today env_example) then [today env_example] else [])
                 @ ws) \<and>
      int (length ws) = 2 \<and> sorted_wrt (<) ws)"
proof -
  have n: "(0 :: int) \<le> 2"
    by simp
  have v: "valid_date (today env_example)"
    by code_simp
  have "distinct [(2025, 1, 2), (2025, 1, 3) :: date] \<and>
      int (length [(2025, 1, 2), (2025, 1, 3) :: date]) = 2 \<and>
      (\<forall>d \<in> set [(2025, 1, 2), (2025, 1, 3)].
         valid_date d \<and> today env_example < d \<and> is_workday env_example d)"
    by code_simp
  then have ds: "\<exists>ds. distinct ds \<and> int (length ds) = 2 \<and>
      (\<forall>d \<in> set ds. valid_date d \<and> today env_example < d \<and> is_workday env_example d)"
    by (rule exI)
  have r: "get_upcoming_workdays env_example 2 = Inr [(2024, 12, 31), (2025, 1, 2), (2025, 1, 3)]"
    by code_simp
  show ?thesis
    using upcoming_workdays_spec [OF n v ds] n v ds r by blast
qed

section \<open>Reconciler: the claims\<close>

lemma titles_to_dates_these:
  "titles_to_dates issues = Inr ds \<Longrightarrow> Option.these (set ds) = decoded_dates issues"
proof (induction issues arbitrary: ds)
  case Nil
  then show ?case by (simp add: decoded_dates_def map_filter_simps)
next
  case (Cons i issues)
  from Cons.prems obtain d ds' where
    d: "issue_title_to_date (title i) = Inr d" and ds': "titles_to_dates issues = Inr ds'"
    and ds: "ds = d # ds'"
    by (auto split: sum.splits)
  from Cons.IH [OF ds'] have "Option.these (set ds') = decoded_dates issues" .
  then show ?case
    using d by (cases d) (simp_all add: ds decoded_dates_def map_filter_simps)
qed

lemma titles_to_dates_returns:
  "\<forall>i \<in> set issues. \<exists>d. issue_title_to_date (title i) = Inr d \<Longrightarrow>
   \<exists>ds. titles_to_dates issues = Inr ds"
  by (induction issues) auto

lemma decoded_dates_iff:
  "d \<in> decoded_dates issues \<longleftrightarrow> (\<exists>i \<in> set issues. issue_title_to_date (title i) = Inr (Some d))"
  by (induction issues) (auto simp: decoded_dates_def split: sum.splits option.splits)

text \<open>
  C1. For every list of issues whose titles each decode to a date or lack the date
  prefix, and every \<open>workdays_ahead\<close>, \<open>get_future_dates_without_issues\<close> returns the
  workdays that \<open>get_upcoming_workdays\<close> produces minus the dates decoded from the
  titles, sorted (and ends in the exception of \<open>get_upcoming_workdays\<close> when that
  produces none); the returned list is strictly ascending and without duplicates,
  each returned date is a workday and none is the date decoded from an issue.
\<close>

theorem future_dates_without_issues_spec:
  assumes "\<forall>i \<in> set issues.
             (\<exists>d. issue_title_to_date (title i) = Inr (Some d)) \<or> \<not> has_date_prefix (title i)"
  shows "get_future_dates_without_issues e issues workdays_ahead =
           (case get_upcoming_workdays e workdays_ahead of
              Inl err \<Rightarrow> Inl err
            | Inr ws \<Rightarrow> Inr (sorted_list_of_set (set ws - decoded_dates issues))) \<and>
         (\<forall>ws. get_upcoming_workdays e workdays_ahead = Inr ws \<longrightarrow>
            (\<exists>r. get_future_dates_without_issues e issues workdays_ahead = Inr r \<and>
               set r = set ws - decoded_dates issues \<and> sorted_wrt (<) r \<and> distinct r \<and>
               (\<forall>d \<in> set r. is_workday e d) \<and>
               (\<forall>d \<in> set r. \<forall>i \<in> set issues.
                  issue_title_to_date (title i) \<noteq> Inr (Some d))))"
proof (intro conjI allI impI)
  have "\<forall>i \<in> set issues. \<exists>d. issue_title_to_date (title i) = Inr d"
    using assms by (auto simp: issue_title_to_date_eq)
  then obtain ds where ds: "titles_to_dates issues = Inr ds"
    using titles_to_dates_returns by blast
  show eq: "get_future_dates_without_issues e issues workdays_ahead =
      (case get_upcoming_workdays e workdays_ahead of
         Inl err \<Rightarrow> Inl err
       | Inr ws \<Rightarrow> Inr (sorted_list_of_set (set ws - decoded_dates issues)))"
    by (simp add: get_future_dates_without_issues_def ds titles_to_dates_these [OF ds]
        split: sum.splits)
  fix ws
  assume ws: "get_upcoming_workdays e workdays_ahead = Inr ws"
  define r where "r = sorted_list_of_set (set ws - decoded_dates issues)"
  have ret: "get_future_dates_without_issues e issues workdays_ahead = Inr r"
    by (simp add: eq ws r_def)
  have s: "set r = set ws - decoded_dates issues"
    by (simp add: r_def)
  have "sorted_wrt (<) r" "distinct r"
    by (simp_all add: r_def)
  moreover have "\<forall>d \<in> set r. is_workday e d"
    using get_upcoming_workdays_members [OF ws] s by blast
  moreover have "\<forall>d \<in> set r. \<forall>i \<in> set issues. issue_title_to_date (title i) \<noteq> Inr (Some d)"
    using s decoded_dates_iff by blast
  ultimately show "\<exists>r. get_future_dates_without_issues e issues workdays_ahead = Inr r \<and>
      set r = set ws - decoded_dates issues \<and> sorted_wrt (<) r \<and> distinct r \<and>
      (\<forall>d \<in> set r. is_workday e d) \<and>
      (\<forall>d \<in> set r. \<forall>i \<in> set issues. issue_title_to_date (title i) \<noteq> Inr (Some d))"
    using ret s by blast
qed

theorem future_dates_without_issues_witness:
  "issue_title_to_date ''2025-01-02: e-scrum for Thursday, January 2, 2025'' =
     Inr (Some (2025, 1, 2)) \<and>
   \<not> has_date_prefix ''Random issue'' \<and>
   get_upcoming_workdays env_example 2 = Inr [(2024, 12, 31), (2025, 1, 2), (2025, 1, 3)] \<and>
   get_future_dates_without_issues env_example issues_example 2 =
     Inr [(2024, 12, 31), (2025, 1, 3)] \<and>
   (\<exists>r. get_future_dates_without_issues env_example issues_example 2 = Inr r \<and>
      set r = set [(2024, 12, 31), (2025, 1, 2), (2025, 1, 3)] - decoded_dates issues_example \<and>
      sorted_wrt (<) r \<and> distinct r \<and>
      (\<forall>d \<in> set r. is_workday env_example d) \<and>
      (\<forall>d \<in> set r. \<forall>i \<in> set issues_example.
         issue_title_to_date (title i) \<noteq> Inr (Some d)))"
proof -
  have t1: "issue_title_to_date ''2025-01-02: e-scrum for Thursday, January 2, 2025'' =
      Inr (Some (2025, 1, 2))"
    by code_simp
  have t2: "\<not> has_date_prefix ''Random issue''"
    by code_simp
  have clean: "\<forall>i \<in> set issues_example.
      (\<exists>d. issue_title_to_date (title i) = Inr (Some d)) \<or> \<not> has_date_prefix (title i)"
    using t1 t2 by (simp add: issues_example_def)
  have ws: "get_upcoming_workdays env_example 2 =
      Inr [(2024, 12, 31), (2025, 1, 2), (2025, 1, 3)]"
    by code_simp
  have r: "get_future_dates_without_issues env_example issues_example 2 =
      Inr [(2024, 12, 31), (2025, 1, 3)]"
    by code_simp
  note spec = future_dates_without_issues_spec [OF clean, of env_example 2, THEN conjunct2,
      THEN spec, THEN mp, OF ws]
  show ?thesis
    using spec t1 t2 ws r by (intro conjI)
qed

text \<open>
  C10. For every list of issues and every \<open>workdays_ahead\<close>, every date that
  \<open>get_future_dates_without_issues\<close> returns is today or later.
\<close>

theorem future_dates_not_past:
  assumes "get_future_dates_without_issues e issues workdays_ahead = Inr r"
  shows "\<forall>d \<in> set r. today e \<le> d"
proof -
  from assms obtain ws ds where ws: "get_upcoming_workdays e workdays_ahead = Inr ws"
    and r: "r = sorted_list_of_set (set ws - Option.these (set ds))"
    by (auto simp: get_future_dates_without_issues_def split: sum.splits)
  have "set r \<subseteq> set ws"
    by (auto simp: r)
  then show ?thesis
    using get_upcoming_workdays_members [OF ws] by blast
qed

theorem future_dates_not_past_witness:
  "get_future_dates_without_issues env_example issues_example 2 =
     Inr [(2024, 12, 31), (2025, 1, 3)] \<and>
   today env_example \<le> (2024, 12, 31) \<and> today env_example \<le> (2025, 1, 3)"
proof -
  have r: "get_future_dates_without_issues env_example issues_example 2 =
      Inr [(2024, 12, 31), (2025, 1, 3)]"
    by code_simp
  show ?thesis
    using future_dates_not_past [OF r] r by simp
qed

section \<open>Closing old issues: the claims\<close>

lemma close_loop_err:
  "issue_title_to_date (title i) = Inl err \<Longrightarrow> close_loop e ls tdy (i # rest) tr = (tr, Inl err)"
  by simp

lemma close_loop_skip:
  assumes "issue_title_to_date (title i) = Inr d" "\<not> is_old tdy ls i"
  shows "close_loop e ls tdy (i # rest) tr = close_loop e ls tdy rest tr"
  using assms by (cases d) (simp_all add: is_old_def)

lemma close_loop_old:
  assumes "is_old tdy ls i"
  shows "\<exists>tr1. close_loop e ls tdy (i # rest) tr = close_loop e ls tdy rest tr1 \<and>
           requests tr1 = requests tr @ [EditState (number i) ''closed'']"
proof -
  from assms obtain dt where dt: "issue_title_to_date (title i) = Inr (Some dt)" "ls < date_sub tdy dt"
    by (auto simp: is_old_def split: sum.splits option.splits)
  define sent where "sent = tr\<lparr>requests := requests tr @ [EditState (number i) ''closed'']\<rparr>"
  define tr1 where "tr1 = (if tracker_fails e (EditState (number i) ''closed'')
                           then log_error ''Closing issue failed:'' sent else sent)"
  have "close_loop e ls tdy (i # rest) tr = close_loop e ls tdy rest tr1"
    using dt by (simp add: send_def tr1_def sent_def)
  moreover have "requests tr1 = requests tr @ [EditState (number i) ''closed'']"
    by (simp add: tr1_def sent_def log_error_def)
  ultimately show ?thesis by blast
qed

lemma close_loop_clean:
  "\<forall>i \<in> set issues. \<exists>d. issue_title_to_date (title i) = Inr d \<Longrightarrow>
   \<exists>tr'. close_loop e ls tdy issues tr = (tr', Inr ()) \<and>
     requests tr' =
       requests tr @ map (\<lambda>i. EditState (number i) ''closed'') (filter (is_old tdy ls) issues)"
proof (induction issues arbitrary: tr)
  case Nil
  then show ?case by simp
next
  case (Cons i issues)
  from Cons.prems obtain d where d: "issue_title_to_date (title i) = Inr d"
    by auto
  from Cons.prems have rest: "\<forall>i \<in> set issues. \<exists>d. issue_title_to_date (title i) = Inr d"
    by simp
  show ?case
  proof (cases "is_old tdy ls i")
    case True
    from close_loop_old [OF True, of e issues tr] obtain tr1 where
      tr1: "close_loop e ls tdy (i # issues) tr = close_loop e ls tdy issues tr1"
        "requests tr1 = requests tr @ [EditState (number i) ''closed'']"
      by blast
    from Cons.IH [OF rest, of tr1] obtain tr' where
      "close_loop e ls tdy issues tr1 = (tr', Inr ())"
      "requests tr' = requests tr1 @
         map (\<lambda>i. EditState (number i) ''closed'') (filter (is_old tdy ls) issues)"
      by blast
    then have "close_loop e ls tdy (i # issues) tr = (tr', Inr ()) \<and>
      requests tr' = requests tr @
         map (\<lambda>i. EditState (number i) ''closed'') (filter (is_old tdy ls) (i # issues))"
      using True tr1 by simp
    then show ?thesis by blast
  next
    case False
    from Cons.IH [OF rest, of tr] obtain tr' where
      "close_loop e ls tdy issues tr = (tr', Inr ())"
      "requests tr' = requests tr @
         map (\<lambda>i. EditState (number i) ''closed'') (filter (is_old tdy ls) issues)"
      by blast
    then have "close_loop e ls tdy (i # issues) tr = (tr', Inr ()) \<and>
      requests tr' = requests tr @
         map (\<lambda>i. EditState (number i) ''closed'') (filter (is_old tdy ls) (i # issues))"
      using False close_loop_skip [OF d False] by simp
    then show ?thesis by blast
  qed
qed

lemma close_loop_requests:
  "\<exists>cs. requests (fst (close_loop e ls tdy issues tr)) =
          requests tr @ map (\<lambda>k. EditState k ''closed'') cs"
proof (induction issues arbitrary: tr)
  case Nil
  have "requests tr = requests tr @ map (\<lambda>k. EditState k ''closed'') []" by simp
  then show ?case by (simp del: append_Nil2)
next
  case (Cons i issues)
  show ?case
  proof (cases "issue_title_to_date (title i)")
    case (Inl err)
    have "requests tr = requests tr @ map (\<lambda>k. EditState k ''closed'') []" by simp
    then show ?thesis
      unfolding close_loop_err [OF Inl] fst_conv by blast
  next
    case (Inr d)
    show ?thesis
    proof (cases "is_old tdy ls i")
      case True
      from close_loop_old [OF True, of e issues tr] obtain tr1 where
        tr1: "close_loop e ls tdy (i # issues) tr = close_loop e ls tdy issues tr1"
          "requests tr1 = requests tr @ [EditState (number i) ''closed'']"
        by blast
      from Cons.IH [of tr1] obtain cs where
        "requests (fst (close_loop e ls tdy issues tr1)) =
           requests tr1 @ map (\<lambda>k. EditState k ''closed'') cs"
        by blast
      then have "requests (fst (close_loop e ls tdy (i # issues) tr)) =
          requests tr @ map (\<lambda>k. EditState k ''closed'') (number i # cs)"
        using tr1 by simp
      then show ?thesis by blast
    next
      case False
      show ?thesis
        unfolding close_loop_skip [OF Inr False] by (rule Cons.IH)
    qed
  qed
qed

lemma is_old_iff:
  "is_old tdy lifespan i \<longleftrightarrow>
     (\<exists>d. issue_title_to_date (title i) = Inr (Some d) \<and> lifespan < date_sub tdy d)"
  by (auto simp: is_old_def split: sum.splits option.splits)

text \<open>
  C7, as amended. For every list of issues whose titles each decode to a date or lack
  the date prefix, and every lifespan of magnitude at most 999999999 days,
  \<open>close_old_issues\<close> returns normally and requests the closed state for exactly the
  issues whose title decodes to a date with today minus that date strictly greater
  than the lifespan, in the order of the list; issues with no date are skipped.
\<close>

theorem close_old_issues_spec:
  assumes "\<forall>i \<in> set issues.
             (\<exists>d. issue_title_to_date (title i) = Inr (Some d)) \<or> \<not> has_date_prefix (title i)"
    and "\<bar>lifespan\<bar> \<le> 999999999"
  shows "\<exists>tr'. close_old_issues e issues lifespan tr = (tr', Inr ()) \<and>
           requests tr' =
             requests tr @
             map (\<lambda>i. EditState (number i) ''closed'')
               (filter (\<lambda>i. \<exists>d. issue_title_to_date (title i) = Inr (Some d) \<and>
                              lifespan < date_sub (today e) d) issues)"
proof -
  have "\<forall>i \<in> set issues. \<exists>d. issue_title_to_date (title i) = Inr d"
    using assms(1) by (auto simp: issue_title_to_date_eq)
  from close_loop_clean [OF this, of e lifespan "today e" tr] obtain tr' where
    "close_loop e lifespan (today e) issues tr = (tr', Inr ())"
    "requests tr' = requests tr @
       map (\<lambda>i. EditState (number i) ''closed'') (filter (is_old (today e) lifespan) issues)"
    by blast
  moreover have "is_old (today e) lifespan =
      (\<lambda>i. \<exists>d. issue_title_to_date (title i) = Inr (Some d) \<and> lifespan < date_sub (today e) d)"
    by (rule ext) (rule is_old_iff)
  ultimately show ?thesis
    using assms(2) by (simp add: close_old_issues_def timedelta_def)
qed

theorem close_old_issues_witness:
  "issue_title_to_date ''2024-03-04: e-scrum for Monday, March 4, 2024'' = Inr (Some (2024, 3, 4)) \<and>
   date_sub (today env_march) (2024, 3, 4) = 8 \<and>
   close_old_issues env_march issues_march 7 fresh_tracker =
     (\<lparr>requests = [EditState 11 ''closed''], error_log = []\<rparr>, Inr ()) \<and>
   (\<exists>tr'. close_old_issues env_march issues_march 7 fresh_tracker = (tr', Inr ()) \<and>
      requests tr' =
        requests fresh_tracker @
        map (\<lambda>i. EditState (number i) ''closed'')
          (filter (\<lambda>i. \<exists>d. issue_title_to_date (title i) = Inr (Some d) \<and>
                         7 < date_sub (today env_march) d) issues_march))"
proof -
  have t1: "issue_title_to_date ''2024-03-04: e-scrum for Monday, March 4, 2024'' =
      Inr (Some (2024, 3, 4))"
    by code_simp
  have t2: "issue_title_to_date ''2024-03-05: e-scrum for Tuesday, March 5, 2024'' =
      Inr (Some (2024, 3, 5))"
    by code_simp
  have t3: "\<not> has_date_prefix ''Random issue''"
    by code_simp
  have clean: "\<forall>i \<in> set issues_march.
      (\<exists>d. issue_title_to_date (title i) = Inr (Some d)) \<or> \<not> has_date_prefix (title i)"
    using t1 t2 t3 by (simp add: issues_march_def)
  have ls: "\<bar>7 :: int\<bar> \<le> 999999999"
    by simp
  have age: "date_sub (today env_march) (2024, 3, 4) = 8"
    by code_simp
  have run: "close_old_issues env_march issues_march 7 fresh_tracker =
      (\<lparr>requests = [EditState 11 ''closed''], error_log = []\<rparr>, Inr ())"
    by code_simp
  show ?thesis
    using close_old_issues_spec [OF clean ls, of env_march fresh_tracker] t1 age run by blast
qed

text \<open>
  C7 as first stated fails on two inputs: after an issue whose title has the
  prefix of no calendar date, the value error ends the loop and the issue of 8 days
  of age behind it is not closed; and a lifespan of -1000000000 days is an overflow
  error of the timedelta before any issue is looked at.
\<close>

theorem close_old_issues_counterexample:
  "close_old_issues env_march issues_corrupt 7 fresh_tracker = (fresh_tracker, Inl ValueError) \<and>
   title (issues_corrupt ! 1) = ''2024-03-04: e-scrum for Monday, March 4, 2024'' \<and>
   issue_title_to_date (title (issues_corrupt ! 1)) = Inr (Some (2024, 3, 4)) \<and>
   7 < date_sub (today env_march) (2024, 3, 4) \<and>
   close_old_issues env_march issues_march (- 1000000000) fresh_tracker = (fresh_tracker, Inl OverflowError) \<and>
   issue_title_to_date (title (issues_march ! 0)) = Inr (Some (2024, 3, 4)) \<and>
   - 1000000000 < date_sub (today env_march) (2024, 3, 4)"
  by code_simp

section \<open>The run: the claims\<close>

lemma create_requests:
  "requests (fold (create_scrum_issue e) dates tr) =
     requests tr @ map (\<lambda>d. CreateIssue (issue_title d) issue_body) dates"
  by (induction dates arbitrary: tr)
    (simp_all add: create_scrum_issue_def send_def log_error_def)

lemma main_requests:
  "\<exists>cs ds. requests (fst (main e issues lifespan n tr)) =
     requests tr @ map (\<lambda>k. EditState k ''closed'') cs @
       map (\<lambda>d. CreateIssue (issue_title d) issue_body) ds"
proof -
  obtain tr1 r1 where c: "close_old_issues e issues lifespan tr = (tr1, r1)"
    by (cases "close_old_issues e issues lifespan tr") auto
  have "\<exists>cs. requests tr1 = requests tr @ map (\<lambda>k. EditState k ''closed'') cs"
  proof (cases "timedelta lifespan")
    case (Inl err)
    with c have "tr1 = tr" by (simp add: close_old_issues_def)
    then have "requests tr1 = requests tr @ map (\<lambda>k. EditState k ''closed'') []" by simp
    then show ?thesis by blast
  next
    case (Inr ls)
    with c have "tr1 = fst (close_loop e ls (today e) issues tr)"
      by (simp add: close_old_issues_def)
    then show ?thesis using close_loop_requests by simp
  qed
  then obtain cs where cs: "requests tr1 = requests tr @ map (\<lambda>k. EditState k ''closed'') cs"
    by blast
  consider (stop) "fst (main e issues lifespan n tr) = tr1"
    | (go) dates where "fst (main e issues lifespan n tr) = fold (create_scrum_issue e) dates tr1"
    using c by (cases r1; cases "get_future_dates_without_issues e issues n")
      (auto simp: main_def)
  then show ?thesis
  proof cases
    case stop
    have "requests tr1 = requests tr @ map (\<lambda>k. EditState k ''closed'') cs @
        map (\<lambda>d. CreateIssue (issue_title d) issue_body) []"
      using cs by simp
    then show ?thesis unfolding stop by blast
  next
    case go
    have "requests (fold (create_scrum_issue e) dates tr1) =
        requests tr @ map (\<lambda>k. EditState k ''closed'') cs @
        map (\<lambda>d. CreateIssue (issue_title d) issue_body) dates"
      by (simp add: create_requests cs)
    then show ?thesis unfolding go by blast
  qed
qed

text \<open>
  C8. In a run, the requests sent are closes followed by creates: no create is
  followed by a close.
\<close>

theorem closes_before_creates:
  "\<exists>new cs ds.
     requests (fst (main e issues lifespan workdays_ahead tr)) = requests tr @ new \<and>
     new = map (\<lambda>k. EditState k ''closed'') cs @
           map (\<lambda>d. CreateIssue (issue_title d) issue_body) ds \<and>
     (\<forall>i j. i < j \<and> j < length new \<and> is_create (new ! i) \<longrightarrow> \<not> is_close (new ! j))"
proof -
  from main_requests [of e issues lifespan workdays_ahead tr] obtain cs ds where
    r: "requests (fst (main e issues lifespan workdays_ahead tr)) =
      requests tr @ map (\<lambda>k. EditState k ''closed'') cs @
        map (\<lambda>d. CreateIssue (issue_title d) issue_body) ds"
    by blast
  define A where "A = map (\<lambda>k. EditState k ''closed'') cs"
  define B where "B = map (\<lambda>d. CreateIssue (issue_title d) issue_body) ds"
  have "\<not> is_close ((A @ B) ! j)" if "i < j" "j < length (A @ B)" "is_create ((A @ B) ! i)" for i j
  proof -
    have "\<not> i < length A"
    proof
      assume "i < length A"
      then have "(A @ B) ! i = EditState (cs ! i) ''closed''"
        by (simp add: nth_append A_def)
      with that(3) show False by simp
    qed
    with that(1,2) have "\<not> j < length A" "j - length A < length ds"
      by (simp_all add: A_def B_def)
    then have "(A @ B) ! j = CreateIssue (issue_title (ds ! (j - length A))) issue_body"
      by (simp add: nth_append B_def)
    then show ?thesis by simp
  qed
  then show ?thesis
    using r unfolding A_def B_def by blast
qed

theorem closes_before_creates_witness:
  "requests (fst (main env_march issues_march 7 1 fresh_tracker)) =
     [EditState 11 ''closed'',
      CreateIssue ''2024-03-12: e-scrum for Tuesday, March 12, 2024'' issue_body,
      CreateIssue ''2024-03-13: e-scrum for Wednesday, March 13, 2024'' issue_body] \<and>
   (\<exists>new cs ds.
     requests (fst (main env_march issues_march 7 1 fresh_tracker)) = requests fresh_tracker @ new \<and>
     new = map (\<lambda>k. EditState k ''closed'') cs @
           map (\<lambda>d. CreateIssue (issue_title d) issue_body) ds \<and>
     (\<forall>i j. i < j \<and> j < length new \<and> is_create (new ! i) \<longrightarrow> \<not> is_close (new ! j)))"
proof -
  have "requests (fst (main env_march issues_march 7 1 fresh_tracker)) =
     [EditState 11 ''closed'',
      CreateIssue ''2024-03-12: e-scrum for Tuesday, March 12, 2024'' issue_body,
      CreateIssue ''2024-03-13: e-scrum for Wednesday, March 13, 2024'' issue_body]"
    by code_simp
  then show ?thesis
    using closes_before_creates [of env_march issues_march 7 1 fresh_tracker] by blast
qed

end
